theory Spec2Isabelle
  imports Main "HOL-Library.Sublist"
begin

section \<open>Python text primitives used by the chain engine\<close>

text \<open>
  Python \<^verbatim>\<open>str\<close> values are modelled as \<^typ>\<open>string\<close>, a text by the bytes that
  \<^verbatim>\<open>content.encode()\<close> hands to the digest. The engine formats two kinds
  of value into the hashed content with an f-string: integers (\<^verbatim>\<open>index\<close>, \<^verbatim>\<open>nonce\<close>),
  rendered in decimal, and the hash fields, which hold a \<^verbatim>\<open>str\<close> or \<^verbatim>\<open>None\<close>
  (rendered as the text \<^verbatim>\<open>None\<close>).
\<close>

definition digit_char :: "nat \<Rightarrow> char" where
  "digit_char d = ''0123456789'' ! d"

fun str_nat :: "nat \<Rightarrow> string" where
  "str_nat n = (if n < 10 then [digit_char n] else str_nat (n div 10) @ [digit_char (n mod 10)])"

declare str_nat.simps [simp del]

definition str_int :: "int \<Rightarrow> string" where
  "str_int i = (if i < 0 then CHR ''-'' # str_nat (nat (- i)) else str_nat (nat i))"

fun format_opt :: "string option \<Rightarrow> string" where
  "format_opt None = ''None''"
| "format_opt (Some s) = s"

text \<open>\<^verbatim>\<open>s.startswith(p)\<close>.\<close>

definition startswith :: "string \<Rightarrow> string \<Rightarrow> bool" where
  "startswith s p = (take (length p) s = p)"




section \<open>Blocks\<close>

text \<open>
  \<^verbatim>\<open>BlockHeader\<close> and \<^verbatim>\<open>Block\<close> of \<^verbatim>\<open>blockchain_core.py\<close>. The attribute
  \<^verbatim>\<open>mining_time\<close> is a rounded wall-clock difference, read only where the chain is
  printed or saved; it is left out of the record.
\<close>

record BlockHeader =
  index :: int
  timestamp :: string
  previous_hash :: "string option"
  nonce :: int
  difficulty :: int
  hash :: "string option"

record Block =
  header :: BlockHeader
  data :: string

text \<open>\<^verbatim>\<open>BlockHeader.__init__\<close>: the nonce starts at 0 and the hash at \<^verbatim>\<open>None\<close>.\<close>

definition BlockHeader_init :: "int \<Rightarrow> string \<Rightarrow> string option \<Rightarrow> int \<Rightarrow> BlockHeader" where
  "BlockHeader_init idx ts prev diff =
     \<lparr>index = idx, timestamp = ts, previous_hash = prev, nonce = 0,
      difficulty = diff, hash = None\<rparr>"

text \<open>
  \<^verbatim>\<open>Block.calculate_hash\<close>. The digest \<^verbatim>\<open>hashlib.sha256(content.encode()).hexdigest()\<close>
  is library code; it is the parameter \<open>H\<close>, from the content string to the hexadecimal
  text of its digest.
\<close>

definition content :: "Block \<Rightarrow> string" where
  "content b =
     str_int (index (header b)) @ timestamp (header b) @ data b
       @ format_opt (previous_hash (header b)) @ str_int (nonce (header b))"

definition calculate_hash :: "(string \<Rightarrow> string) \<Rightarrow> Block \<Rightarrow> string" where
  "calculate_hash H b = H (content b)"

text \<open>
  \<^verbatim>\<open>Block.mine_block\<close>: the \<^verbatim>\<open>while True\<close> loop has no bound, so it is a partial
  function; \<open>None\<close> is the search that never ends. A finished search gives the hash
  returned and the block with the nonce the loop left in it.
\<close>

definition bump_nonce :: "Block \<Rightarrow> Block" where
  "bump_nonce b = b\<lparr>header := (header b)\<lparr>nonce := nonce (header b) + 1\<rparr>\<rparr>"

partial_function (option) mine_loop ::
  "(string \<Rightarrow> string) \<Rightarrow> string \<Rightarrow> Block \<Rightarrow> (string \<times> Block) option" where
  "mine_loop H pfx b =
     (if startswith (calculate_hash H b) pfx then Some (calculate_hash H b, b)
      else mine_loop H pfx (bump_nonce b))"

definition mine_block :: "(string \<Rightarrow> string) \<Rightarrow> Block \<Rightarrow> (string \<times> Block) option" where
  "mine_block H b =
     mine_loop H (replicate (nat (BlockHeader.difficulty (header b))) CHR ''0'') b"

text \<open>
  \<^verbatim>\<open>Block.__init__\<close>. The timestamp \<^verbatim>\<open>str(datetime.now())\<close> is an input \<open>ts\<close>.
\<close>

definition Block_init ::
  "(string \<Rightarrow> string) \<Rightarrow> string \<Rightarrow> int \<Rightarrow> string \<Rightarrow> string option \<Rightarrow> int \<Rightarrow> Block option" where
  "Block_init H ts idx dat prev diff =
     (case mine_block H \<lparr>header = BlockHeader_init idx ts prev diff, data = dat\<rparr> of
        None \<Rightarrow> None
      | Some (h, b) \<Rightarrow> Some (b\<lparr>header := (header b)\<lparr>hash := Some h\<rparr>\<rparr>))"

section \<open>The chain\<close>

record Blockchain =
  difficulty :: int
  chain :: "Block list"

datatype error = IndexError

text \<open>
  The engine reports by printing: which blocks fail validation, which blocks match a
  search, whether a tamper request was carried out. One value per line it prints; the
  operations below return the lines they print next to their result.
\<close>

datatype message =
    Invalid_hash nat "string option" string
  | Invalid_previous_hash nat "string option" "string option"
  | Valid nat
  | Found int string
  | Keyword_not_found
  | Tampered int
  | Cannot_tamper

definition create_genesis_block :: "(string \<Rightarrow> string) \<Rightarrow> string \<Rightarrow> int \<Rightarrow> Block option" where
  "create_genesis_block H ts diff = Block_init H ts 0 ''Genesis Block'' (Some ''0'') diff"

definition Blockchain_init :: "(string \<Rightarrow> string) \<Rightarrow> string \<Rightarrow> int \<Rightarrow> Blockchain option" where
  "Blockchain_init H ts diff =
     (case create_genesis_block H ts diff of
        None \<Rightarrow> None
      | Some g \<Rightarrow> Some \<lparr>difficulty = diff, chain = [g]\<rparr>)"

text \<open>\<^verbatim>\<open>self.chain[-1]\<close> raises \<^verbatim>\<open>IndexError\<close> on an empty list.\<close>

definition get_latest_block :: "Blockchain \<Rightarrow> error + Block" where
  "get_latest_block c = (if chain c = [] then Inl IndexError else Inr (last (chain c)))"

text \<open>
  \<^verbatim>\<open>add_block\<close>: \<open>None\<close> when mining the new block never ends, \<open>Some (Inl e)\<close> when the
  call raises, \<open>Some (Inr c')\<close> with the chain after the call otherwise.
\<close>

definition add_block ::
  "(string \<Rightarrow> string) \<Rightarrow> Blockchain \<Rightarrow> string \<Rightarrow> string \<Rightarrow> (error + Blockchain) option" where
  "add_block H c ts dat =
     (case get_latest_block c of
        Inl e \<Rightarrow> Some (Inl e)
      | Inr last_block \<Rightarrow>
          (case Block_init H ts (int (length (chain c))) dat
                  (hash (header last_block)) (difficulty c) of
             None \<Rightarrow> None
           | Some new_block \<Rightarrow> Some (Inr (c\<lparr>chain := chain c @ [new_block]\<rparr>))))"

text \<open>
  \<^verbatim>\<open>is_chain_valid\<close>: one pass of the \<^verbatim>\<open>for\<close> loop per index of
  \<^verbatim>\<open>range(1, len(self.chain))\<close>, on the flag \<^verbatim>\<open>valid\<close> and the lines printed so far.
  The result is the flag returned and the lines printed.
\<close>

definition check_block :: "(string \<Rightarrow> string) \<Rightarrow> Block list \<Rightarrow> bool \<times> message list \<Rightarrow> nat \<Rightarrow> bool \<times> message list" where
  "check_block H bs st i =
     (let current = bs ! i; previous = bs ! (i - 1);
          recalculated_hash = calculate_hash H current
      in if hash (header current) \<noteq> Some recalculated_hash
           then (False, snd st @ [Invalid_hash i (hash (header current)) recalculated_hash])
         else if previous_hash (header current) \<noteq> hash (header previous)
           then (False, snd st @ [Invalid_previous_hash i (previous_hash (header current))
                                    (hash (header previous))])
         else (fst st, snd st @ [Valid i]))"

definition is_chain_valid :: "(string \<Rightarrow> string) \<Rightarrow> Blockchain \<Rightarrow> bool \<times> message list" where
  "is_chain_valid H c = foldl (check_block H (chain c)) (True, []) [1..<length (chain c)]"



text \<open>
  \<^verbatim>\<open>tamper_block\<close>: the chain after the call and the line printed. The method has no
  \<^verbatim>\<open>raise\<close> and no \<^verbatim>\<open>return\<close>: both branches end in a \<^verbatim>\<open>print\<close>. Every entry of
  \<^verbatim>\<open>self.chain\<close> is an object built by its own \<^verbatim>\<open>Block(...)\<close> call, so the assignment to
  one entry's \<^verbatim>\<open>data\<close> is an update of that position of the list.
\<close>

definition tamper_block :: "Blockchain \<Rightarrow> int \<Rightarrow> Blockchain \<times> message list" where
  "tamper_block c idx =
     (if 0 < idx \<and> idx < int (length (chain c))
      then (c\<lparr>chain := (chain c)[nat idx := (chain c ! nat idx)\<lparr>data := ''Tampered Data''\<rparr>]\<rparr>,
            [Tampered idx])
      else (c, [Cannot_tamper]))"

text \<open>
  What a call hands back to its caller: an exception (\<open>Inl\<close>) or the value returned
  (\<open>Inr\<close>). \<^verbatim>\<open>is_chain_valid\<close> ends in \<^verbatim>\<open>return valid\<close>. \<^verbatim>\<open>search_block\<close> and
  \<^verbatim>\<open>tamper_block\<close> have no \<^verbatim>\<open>return\<close> and no \<^verbatim>\<open>raise\<close> statement, and the guard of
  \<^verbatim>\<open>tamper_block\<close> keeps its one list access in range: each of their calls returns
  \<^verbatim>\<open>None\<close>, whichever branch ran.
\<close>

datatype pyvalue = PyNone | PyBool bool

definition is_chain_valid_returns :: "(string \<Rightarrow> string) \<Rightarrow> Blockchain \<Rightarrow> error + pyvalue" where
  "is_chain_valid_returns H c = Inr (PyBool (fst (is_chain_valid H c)))"


definition tamper_block_returns :: "Blockchain \<Rightarrow> int \<Rightarrow> error + pyvalue" where
  "tamper_block_returns c idx =
     (if 0 < idx \<and> idx < int (length (chain c)) then Inr PyNone else Inr PyNone)"

text \<open>
  The chains the engine builds when nothing tampers with them: the constructor, then
  any number of \<^verbatim>\<open>add_block\<close> calls that return.
\<close>

inductive untampered :: "(string \<Rightarrow> string) \<Rightarrow> Blockchain \<Rightarrow> bool" for H where
  constructed: "Blockchain_init H ts diff = Some c \<Longrightarrow> untampered H c"
| appended: "untampered H c \<Longrightarrow> add_block H c ts dat = Some (Inr c') \<Longrightarrow> untampered H c'"

text \<open>The line the loop body of \<^verbatim>\<open>is_chain_valid\<close> prints for index \<open>i\<close>.\<close>

definition printed_line :: "(string \<Rightarrow> string) \<Rightarrow> Block list \<Rightarrow> nat \<Rightarrow> message" where
  "printed_line H bs i = last (snd (check_block H bs (True, []) i))"

text \<open>
  A 16-bit digest with the shape of \<^verbatim>\<open>hexdigest()\<close> (lower-case hexadecimal text),
  to run the engine on concrete inputs. Every theorem below holds for every digest
  function \<open>H\<close>.
\<close>

definition hex_digit :: "nat \<Rightarrow> char" where
  "hex_digit d = ''0123456789abcdef'' ! d"

definition fold_digest :: "string \<Rightarrow> string" where
  "fold_digest s =
     (let n = (foldl (\<lambda>h c. (h * 31 + of_char c) mod 65536) 0 s * 40503) mod 65536
      in [hex_digit (n div 4096), hex_digit (n div 256 mod 16),
          hex_digit (n div 16 mod 16), hex_digit (n mod 16)])"

text \<open>Predicates used to state what mining and appending establish.\<close>

definition same_but_nonce :: "Block \<Rightarrow> Block \<Rightarrow> bool" where
  "same_but_nonce b b' \<longleftrightarrow>
     b' = b\<lparr>header := (header b)\<lparr>nonce := nonce (header b')\<rparr>\<rparr> \<and>
     nonce (header b) \<le> nonce (header b')"

definition mined :: "(string \<Rightarrow> string) \<Rightarrow> string \<Rightarrow> Block \<Rightarrow> string \<times> Block \<Rightarrow> bool" where
  "mined H pfx b r \<longleftrightarrow>
     startswith (fst r) pfx \<and> fst r = calculate_hash H (snd r) \<and> same_but_nonce b (snd r)"

definition sealed :: "(string \<Rightarrow> string) \<Rightarrow> Block \<Rightarrow> bool" where
  "sealed H b \<longleftrightarrow> hash (header b) = Some (calculate_hash H b)"

definition hash_ok :: "(string \<Rightarrow> string) \<Rightarrow> Block list \<Rightarrow> nat \<Rightarrow> bool" where
  "hash_ok H bs i \<longleftrightarrow> hash (header (bs ! i)) = Some (calculate_hash H (bs ! i))"

definition link_ok :: "Block list \<Rightarrow> nat \<Rightarrow> bool" where
  "link_ok bs i \<longleftrightarrow> previous_hash (header (bs ! i)) = hash (header (bs ! (i - 1)))"

definition well_formed :: "(string \<Rightarrow> string) \<Rightarrow> Blockchain \<Rightarrow> bool" where
  "well_formed H c \<longleftrightarrow>
     chain c \<noteq> [] \<and>
     data (chain c ! 0) = ''Genesis Block'' \<and>
     previous_hash (header (chain c ! 0)) = Some ''0'' \<and>
     (\<forall>i<length (chain c).
        sealed H (chain c ! i) \<and> index (header (chain c ! i)) = int i \<and>
        BlockHeader.difficulty (header (chain c ! i)) = difficulty c \<and>
        (0 < i \<longrightarrow> link_ok (chain c) i))"

text \<open>
  A chain of difficulty 1 under \<open>fold_digest\<close>: the genesis block, then the blocks of
  two \<^verbatim>\<open>add_block\<close> calls. Each block carries the nonce and the hash its mining ends on.
\<close>

definition ex_genesis :: Block where
  "ex_genesis =
     \<lparr>header = \<lparr>index = 0, timestamp = ''2024-05-01 10:00:05.000000'',
                 previous_hash = Some ''0'', nonce = 2, difficulty = 1, hash = Some ''02b7''\<rparr>,
      data = ''Genesis Block''\<rparr>"

definition ex_block1 :: Block where
  "ex_block1 =
     \<lparr>header = \<lparr>index = 1, timestamp = ''2024-05-01 10:01:01.000000'',
                 previous_hash = Some ''02b7'', nonce = 1, difficulty = 1, hash = Some ''07cf''\<rparr>,
      data = ''Alice pays Bob 5''\<rparr>"

definition ex_block2 :: Block where
  "ex_block2 =
     \<lparr>header = \<lparr>index = 2, timestamp = ''2024-05-01 10:02:04.000000'',
                 previous_hash = Some ''07cf'', nonce = 1, difficulty = 1, hash = Some ''023e''\<rparr>,
      data = ''Bob pays Carol 3''\<rparr>"

definition ex_chain :: Blockchain where
  "ex_chain = \<lparr>difficulty = 1, chain = [ex_genesis, ex_block1, ex_block2]\<rparr>"

text \<open>The block \<^verbatim>\<open>add_block("Tampered Data")\<close> appends to the one-block chain.\<close>

definition ex_marker_block :: Block where
  "ex_marker_block =
     \<lparr>header = \<lparr>index = 1, timestamp = ''2024-05-01 10:03:20.000000'',
                 previous_hash = Some ''02b7'', nonce = 1, difficulty = 1, hash = Some ''064b''\<rparr>,
      data = ''Tampered Data''\<rparr>"

definition ex_marker_chain :: Blockchain where
  "ex_marker_chain = \<lparr>difficulty = 1, chain = [ex_genesis, ex_marker_block]\<rparr>"

section \<open>Mining\<close>

lemma startswith_Nil: "startswith s []"
  by (simp add: startswith_def)

lemma startswith_zeros:
  "startswith s (replicate n CHR ''0'') \<longleftrightarrow> n \<le> length s \<and> (\<forall>i<n. s ! i = CHR ''0'')"
proof
  assume "startswith s (replicate n CHR ''0'')"
  then have eq: "take n s = replicate n CHR ''0''"
    by (simp add: startswith_def)
  then have "length (take n s) = n"
    by simp
  then have le: "n \<le> length s"
    by simp
  have "s ! i = CHR ''0''" if "i < n" for i
  proof -
    have "s ! i = take n s ! i"
      using that by simp
    then show ?thesis
      using that eq by simp
  qed
  with le show "n \<le> length s \<and> (\<forall>i<n. s ! i = CHR ''0'')"
    by simp
next
  assume "n \<le> length s \<and> (\<forall>i<n. s ! i = CHR ''0'')"
  then have "take n s = replicate n CHR ''0''"
    by (intro nth_equalityI) simp_all
  then show "startswith s (replicate n CHR ''0'')"
    by (simp add: startswith_def)
qed

lemma bump_nonce_fields:
  "index (header (bump_nonce b)) = index (header b)"
  "timestamp (header (bump_nonce b)) = timestamp (header b)"
  "previous_hash (header (bump_nonce b)) = previous_hash (header b)"
  "BlockHeader.difficulty (header (bump_nonce b)) = BlockHeader.difficulty (header b)"
  "hash (header (bump_nonce b)) = hash (header b)"
  "data (bump_nonce b) = data b"
  "nonce (header (bump_nonce b)) = nonce (header b) + 1"
  by (simp_all add: bump_nonce_def)

lemma same_but_nonce_refl: "same_but_nonce b b"
  by (simp add: same_but_nonce_def)

lemma same_but_nonce_bump: "same_but_nonce (bump_nonce b) b' \<Longrightarrow> same_but_nonce b b'"
  unfolding same_but_nonce_def bump_nonce_def
  by (cases b, cases "header b", cases b', cases "header b'") auto



lemma mine_loop_mined:
  assumes "mine_loop H pfx b = Some r"
  shows "mined H pfx b r"
proof (rule mine_loop.raw_induct[where P = mined, OF _ assms])
  fix loop and G :: "string \<Rightarrow> string" and p :: string and x :: Block and y
  assume IH: "\<And>G p x y. loop G p x = Some y \<Longrightarrow> mined G p x y"
    and step: "(if startswith (calculate_hash G x) p then Some (calculate_hash G x, x)
                else loop G p (bump_nonce x)) = Some y"
  show "mined G p x y"
  proof (cases "startswith (calculate_hash G x) p")
    case True
    with step show ?thesis
      by (auto simp: mined_def same_but_nonce_refl)
  next
    case False
    with step have "loop G p (bump_nonce x) = Some y"
      by simp
    from IH[OF this] show ?thesis
      by (auto simp: mined_def intro: same_but_nonce_bump)
  qed
qed

lemma mine_loop_found:
  "startswith (calculate_hash H ((bump_nonce ^^ k) b)) pfx \<Longrightarrow> \<exists>r. mine_loop H pfx b = Some r"
proof (induction k arbitrary: b)
  case 0
  then show ?case
    by (subst mine_loop.simps) simp
next
  case (Suc k)
  show ?case
  proof (cases "startswith (calculate_hash H b) pfx")
    case True
    then show ?thesis
      by (subst mine_loop.simps) simp
  next
    case False
    from Suc.prems have "startswith (calculate_hash H ((bump_nonce ^^ k) (bump_nonce b))) pfx"
      by (simp add: funpow_swap1)
    from Suc.IH[OF this] obtain r where "mine_loop H pfx (bump_nonce b) = Some r" ..
    with False show ?thesis
      by (subst mine_loop.simps) simp
  qed
qed


lemma calculate_hash_hash_update:
  "calculate_hash H (b\<lparr>header := (header b)\<lparr>hash := h\<rparr>\<rparr>) = calculate_hash H b"
  by (simp add: calculate_hash_def content_def)

lemma mine_block_Some:
  assumes "mine_block H b = Some (h, b')"
  shows "startswith h (replicate (nat (BlockHeader.difficulty (header b))) CHR ''0'')"
    and "h = calculate_hash H b'"
    and "same_but_nonce b b'"
  using mine_loop_mined[OF assms[unfolded mine_block_def]]
  by (auto simp: mined_def)

lemma mine_block_zero:
  "BlockHeader.difficulty (header b) \<le> 0 \<Longrightarrow> mine_block H b = Some (calculate_hash H b, b)"
  unfolding mine_block_def
  by (subst mine_loop.simps) (simp add: startswith_Nil)

lemma Block_init_Some:
  assumes "Block_init H ts idx dat prev diff = Some b"
  shows "index (header b) = idx" and "timestamp (header b) = ts" and "data b = dat"
    and "previous_hash (header b) = prev" and "BlockHeader.difficulty (header b) = diff"
    and "sealed H b" and "0 \<le> nonce (header b)"
    and "startswith (calculate_hash H b) (replicate (nat diff) CHR ''0'')"
proof -
  let ?b0 = "\<lparr>header = BlockHeader_init idx ts prev diff, data = dat\<rparr>"
  from assms obtain h b' where m: "mine_block H ?b0 = Some (h, b')"
    and b: "b = b'\<lparr>header := (header b')\<lparr>hash := Some h\<rparr>\<rparr>"
    by (auto simp: Block_init_def split: option.splits)
  note r = mine_block_Some[OF m]
  from r(3) obtain n where b': "b' = ?b0\<lparr>header := (header ?b0)\<lparr>nonce := n\<rparr>\<rparr>"
    and n: "0 \<le> n"
    by (auto simp: same_but_nonce_def BlockHeader_init_def)
  from b' have f: "index (header b') = idx" "timestamp (header b') = ts" "data b' = dat"
    "previous_hash (header b') = prev" "BlockHeader.difficulty (header b') = diff"
    "nonce (header b') = n"
    by (simp_all add: BlockHeader_init_def)
  show "index (header b) = idx" "timestamp (header b) = ts" "data b = dat"
    "previous_hash (header b) = prev" "BlockHeader.difficulty (header b) = diff"
    using f b by simp_all
  show "sealed H b"
    using r(2) b by (simp add: sealed_def calculate_hash_hash_update)
  show "0 \<le> nonce (header b)"
    using n f b by simp
  show "startswith (calculate_hash H b) (replicate (nat diff) CHR ''0'')"
    using r(1) r(2) b by (simp add: calculate_hash_hash_update BlockHeader_init_def)
qed


section \<open>Validation, construction and appending\<close>

lemma printed_line_cases:
  "printed_line H bs i =
     (if \<not> hash_ok H bs i
        then Invalid_hash i (hash (header (bs ! i))) (calculate_hash H (bs ! i))
      else if \<not> link_ok bs i
        then Invalid_previous_hash i (previous_hash (header (bs ! i))) (hash (header (bs ! (i - 1))))
      else Valid i)"
  by (simp add: printed_line_def check_block_def hash_ok_def link_ok_def Let_def)

lemma check_block_eq:
  "check_block H bs st i =
     (fst st \<and> hash_ok H bs i \<and> link_ok bs i, snd st @ [printed_line H bs i])"
  by (simp add: printed_line_def check_block_def hash_ok_def link_ok_def Let_def)

lemma foldl_check_block:
  "foldl (check_block H bs) st js =
     (fst st \<and> (\<forall>i\<in>set js. hash_ok H bs i \<and> link_ok bs i),
      snd st @ map (printed_line H bs) js)"
proof (induction js arbitrary: st)
  case Nil
  then show ?case by simp
next
  case (Cons j js)
  show ?case
    unfolding foldl_Cons Cons.IH
    by (simp add: check_block_eq conj_assoc)
qed

lemma is_chain_valid_eq:
  "is_chain_valid H c =
     ((\<forall>i\<in>{1..<length (chain c)}. hash_ok H (chain c) i \<and> link_ok (chain c) i),
      map (printed_line H (chain c)) [1..<length (chain c)])"
  by (simp add: is_chain_valid_def foldl_check_block)

lemma printed_line_Valid_iff:
  "printed_line H bs i = Valid j \<longleftrightarrow> j = i \<and> hash_ok H bs i \<and> link_ok bs i"
  by (auto simp: printed_line_cases)


lemma Blockchain_init_Some:
  assumes "Blockchain_init H ts diff = Some c"
  obtains g where "c = \<lparr>difficulty = diff, chain = [g]\<rparr>"
    and "Block_init H ts 0 ''Genesis Block'' (Some ''0'') diff = Some g"
  using assms
  by (auto simp: Blockchain_init_def create_genesis_block_def split: option.splits)

lemma add_block_Some:
  assumes "add_block H c ts dat = Some (Inr c')"
  obtains nb where "chain c \<noteq> []" and "c' = c\<lparr>chain := chain c @ [nb]\<rparr>"
    and "Block_init H ts (int (length (chain c))) dat (hash (header (last (chain c))))
           (difficulty c) = Some nb"
  using assms
  by (auto simp: add_block_def get_latest_block_def split: if_splits option.splits)

lemma well_formed_constructed:
  assumes "Blockchain_init H ts diff = Some c"
  shows "well_formed H c"
proof -
  from assms obtain g where c: "c = \<lparr>difficulty = diff, chain = [g]\<rparr>"
    and g: "Block_init H ts 0 ''Genesis Block'' (Some ''0'') diff = Some g"
    by (rule Blockchain_init_Some)
  show ?thesis
    using Block_init_Some[OF g] by (simp add: well_formed_def c)
qed

lemma well_formed_appended:
  assumes wf: "well_formed H c" and add: "add_block H c ts dat = Some (Inr c')"
  shows "well_formed H c'"
proof -
  from add obtain nb where ne: "chain c \<noteq> []" and c': "c' = c\<lparr>chain := chain c @ [nb]\<rparr>"
    and nb: "Block_init H ts (int (length (chain c))) dat (hash (header (last (chain c))))
               (difficulty c) = Some nb"
    by (rule add_block_Some)
  note f = Block_init_Some[OF nb]
  let ?n = "length (chain c)"
  have old: "(chain c @ [nb]) ! i = chain c ! i" if "i < ?n" for i
    using that by (simp add: nth_append)
  have new: "(chain c @ [nb]) ! ?n = nb"
    by simp
  have link_new: "link_ok (chain c @ [nb]) ?n"
    using ne f(4) by (simp add: link_ok_def nth_append last_conv_nth)
  have link_old: "link_ok (chain c @ [nb]) i" if "i < ?n" "link_ok (chain c) i" for i
  proof -
    from that(1) have "i - 1 < ?n" by simp
    with that show ?thesis
      by (simp add: link_ok_def old)
  qed
  have "sealed H ((chain c @ [nb]) ! i) \<and> index (header ((chain c @ [nb]) ! i)) = int i \<and>
        BlockHeader.difficulty (header ((chain c @ [nb]) ! i)) = difficulty c \<and>
        (0 < i \<longrightarrow> link_ok (chain c @ [nb]) i)" if "i < Suc ?n" for i
  proof (cases "i < ?n")
    case True
    with wf show ?thesis
      by (simp add: well_formed_def old link_old)
  next
    case False
    with that have "i = ?n" by simp
    then show ?thesis
      using f(1,5,6) link_new by simp
  qed
  moreover have "(chain c @ [nb]) ! 0 = chain c ! 0"
    using ne by (simp add: nth_append)
  ultimately show ?thesis
    using wf by (simp add: well_formed_def c')
qed

lemma untampered_well_formed: "untampered H c \<Longrightarrow> well_formed H c"
  by (induction rule: untampered.induct)
    (auto intro: well_formed_constructed well_formed_appended)

lemma well_formed_all_pass:
  assumes "well_formed H c" and "1 \<le> i" and "i < length (chain c)"
  shows "hash_ok H (chain c) i" and "link_ok (chain c) i"
  using assms by (simp_all add: well_formed_def hash_ok_def sealed_def)

lemma untampered_is_chain_valid:
  assumes "untampered H c"
  shows "is_chain_valid H c = (True, map Valid [1..<length (chain c)])"
proof -
  have wf: "well_formed H c"
    using assms by (rule untampered_well_formed)
  have "printed_line H (chain c) i = Valid i" if "i \<in> set [1..<length (chain c)]" for i
    using that well_formed_all_pass[OF wf, of i] by (simp add: printed_line_cases)
  then have "map (printed_line H (chain c)) [1..<length (chain c)] = map Valid [1..<length (chain c)]"
    by (intro map_cong) simp_all
  moreover have "\<forall>i\<in>{1..<length (chain c)}. hash_ok H (chain c) i \<and> link_ok (chain c) i"
    using well_formed_all_pass[OF wf] by simp
  ultimately show ?thesis
    by (simp add: is_chain_valid_eq)
qed


section \<open>The example chain\<close>

lemmas run_simps = str_int_def str_nat.simps digit_char_def hex_digit_def fold_digest_def
  calculate_hash_def content_def startswith_def bump_nonce_def mine_block_def mine_loop.simps
  Block_init_def BlockHeader_init_def create_genesis_block_def Blockchain_init_def
  add_block_def get_latest_block_def

lemma ex_constructed:
  "Blockchain_init fold_digest ''2024-05-01 10:00:05.000000'' 1 =
     Some \<lparr>difficulty = 1, chain = [ex_genesis]\<rparr>"
  by (simp add: run_simps ex_genesis_def)

lemma ex_added1:
  "add_block fold_digest \<lparr>difficulty = 1, chain = [ex_genesis]\<rparr>
     ''2024-05-01 10:01:01.000000'' ''Alice pays Bob 5'' =
   Some (Inr \<lparr>difficulty = 1, chain = [ex_genesis, ex_block1]\<rparr>)"
  by (simp add: run_simps ex_genesis_def ex_block1_def)

lemma ex_added2:
  "add_block fold_digest \<lparr>difficulty = 1, chain = [ex_genesis, ex_block1]\<rparr>
     ''2024-05-01 10:02:04.000000'' ''Bob pays Carol 3'' = Some (Inr ex_chain)"
  by (simp add: run_simps ex_genesis_def ex_block1_def ex_block2_def ex_chain_def)

lemma ex_added_marker:
  "add_block fold_digest \<lparr>difficulty = 1, chain = [ex_genesis]\<rparr>
     ''2024-05-01 10:03:20.000000'' ''Tampered Data'' = Some (Inr ex_marker_chain)"
  by (simp add: run_simps ex_genesis_def ex_marker_block_def ex_marker_chain_def)

lemma ex_untampered: "untampered fold_digest ex_chain"
  by (rule appended[OF appended[OF constructed[OF ex_constructed] ex_added1] ex_added2])

lemma ex_marker_untampered: "untampered fold_digest ex_marker_chain"
  by (rule appended[OF constructed[OF ex_constructed] ex_added_marker])

lemma ex_hashes:
  "calculate_hash fold_digest ex_genesis = ''02b7''"
  "calculate_hash fold_digest ex_block1 = ''07cf''"
  "calculate_hash fold_digest ex_block2 = ''023e''"
  "calculate_hash fold_digest ex_marker_block = ''064b''"
  "calculate_hash fold_digest (ex_genesis\<lparr>data := ''Tampered Data''\<rparr>) = ''6fd6''"
  "calculate_hash fold_digest (ex_block1\<lparr>data := ''Tampered Data''\<rparr>) = ''2998''"
  "calculate_hash fold_digest
     (ex_block1\<lparr>header := (header ex_block1)\<lparr>previous_hash := Some ''ffff''\<rparr>\<rparr>) = ''30a0''"
  by (simp_all add: calculate_hash_def content_def str_int_def str_nat.simps digit_char_def
      fold_digest_def hex_digit_def ex_genesis_def ex_block1_def ex_block2_def
      ex_marker_block_def)

lemma ex_fields:
  "hash (header ex_genesis) = Some ''02b7''"
  "hash (header ex_block1) = Some ''07cf''" "previous_hash (header ex_block1) = Some ''02b7''"
  "hash (header ex_block2) = Some ''023e''" "previous_hash (header ex_block2) = Some ''07cf''"
  "hash (header ex_marker_block) = Some ''064b''"
  "previous_hash (header ex_marker_block) = Some ''02b7''"
  "data ex_marker_block = ''Tampered Data''"
  by (simp_all add: ex_genesis_def ex_block1_def ex_block2_def ex_marker_block_def)

lemmas valid_simps = is_chain_valid_def check_block_eq printed_line_cases hash_ok_def
  link_ok_def

text \<open>
  C3. Whenever \<^verbatim>\<open>mine_block\<close> returns, for a difficulty \<open>d\<close> (\<open>d \<ge> 0\<close>), the hash
  returned has at least \<open>d\<close> characters and its first \<open>d\<close> characters are \<^verbatim>\<open>0\<close>; it is
  the hash of the block's index, timestamp, data and previous hash with the nonce the
  search ended on, and the search changed nothing but the nonce, which it never
  decreases. At difficulty 0 the search returns at once with the nonce it started
  from, so a block constructed at difficulty 0 is sealed at nonce 0.
\<close>

theorem mine_block_meets_difficulty:
  "(mine_block H b = Some (h, b') \<longrightarrow>
      nat (BlockHeader.difficulty (header b)) \<le> length h \<and>
      (\<forall>i<nat (BlockHeader.difficulty (header b)). h ! i = CHR ''0'') \<and>
      h = H (str_int (index (header b)) @ timestamp (header b) @ data b
               @ format_opt (previous_hash (header b)) @ str_int (nonce (header b'))) \<and>
      b' = b\<lparr>header := (header b)\<lparr>nonce := nonce (header b')\<rparr>\<rparr> \<and>
      nonce (header b) \<le> nonce (header b')) \<and>
   (BlockHeader.difficulty (header b) = 0 \<longrightarrow>
      mine_block H b = Some (calculate_hash H b, b)) \<and>
   Block_init H ts idx dat prev 0 =
     Some \<lparr>header = \<lparr>index = idx, timestamp = ts, previous_hash = prev, nonce = 0,
                      difficulty = 0,
                      hash = Some (H (str_int idx @ ts @ dat @ format_opt prev @ str_int 0))\<rparr>,
           data = dat\<rparr>"
proof (intro conjI impI)
  assume m: "mine_block H b = Some (h, b')"
  note r = mine_block_Some[OF m]
  from r(1) show "nat (BlockHeader.difficulty (header b)) \<le> length h"
    and "\<forall>i<nat (BlockHeader.difficulty (header b)). h ! i = CHR ''0''"
    by (simp_all add: startswith_zeros)
  from r(3) show s: "b' = b\<lparr>header := (header b)\<lparr>nonce := nonce (header b')\<rparr>\<rparr>"
    and "nonce (header b) \<le> nonce (header b')"
    by (simp_all add: same_but_nonce_def)
  have "content b' = str_int (index (header b)) @ timestamp (header b) @ data b
          @ format_opt (previous_hash (header b)) @ str_int (nonce (header b'))"
    by (subst s) (simp add: content_def)
  with r(2) show "h = H (str_int (index (header b)) @ timestamp (header b) @ data b
               @ format_opt (previous_hash (header b)) @ str_int (nonce (header b')))"
    by (simp add: calculate_hash_def)
next
  assume "BlockHeader.difficulty (header b) = 0"
  then show "mine_block H b = Some (calculate_hash H b, b)"
    by (simp add: mine_block_zero)
next
  let ?b0 = "\<lparr>header = BlockHeader_init idx ts prev 0, data = dat\<rparr>"
  have "mine_block H ?b0 = Some (calculate_hash H ?b0, ?b0)"
    by (rule mine_block_zero) (simp add: BlockHeader_init_def)
  then show "Block_init H ts idx dat prev 0 =
     Some \<lparr>header = \<lparr>index = idx, timestamp = ts, previous_hash = prev, nonce = 0,
                      difficulty = 0,
                      hash = Some (H (str_int idx @ ts @ dat @ format_opt prev @ str_int 0))\<rparr>,
           data = dat\<rparr>"
    by (simp add: Block_init_def BlockHeader_init_def calculate_hash_def content_def)
qed

theorem mine_block_meets_difficulty_witness:
  "mine_block fold_digest
     \<lparr>header = BlockHeader_init 0 ''2024-05-01 10:00:05.000000'' (Some ''0'') 1,
      data = ''Genesis Block''\<rparr> = Some (''02b7'', ex_genesis\<lparr>header := (header ex_genesis)\<lparr>hash := None\<rparr>\<rparr>) \<and>
   fold_digest ''02024-05-01 10:00:05.000000Genesis Block00'' = ''c649'' \<and>
   fold_digest ''02024-05-01 10:00:05.000000Genesis Block01'' = ''6480'' \<and>
   fold_digest ''02024-05-01 10:00:05.000000Genesis Block02'' = ''02b7'' \<and>
   ''02b7'' ! 0 = CHR ''0'' \<and>
   nonce (header ex_genesis) = 2"
proof -
  let ?b = "\<lparr>header = BlockHeader_init 0 ''2024-05-01 10:00:05.000000'' (Some ''0'') 1,
             data = ''Genesis Block''\<rparr>"
  let ?b' = "ex_genesis\<lparr>header := (header ex_genesis)\<lparr>hash := None\<rparr>\<rparr>"
  have run: "mine_block fold_digest ?b = Some (''02b7'', ?b')"
    by (simp add: run_simps ex_genesis_def)
  have d: "BlockHeader.difficulty (header ?b) = 1"
    by (simp add: BlockHeader_init_def)
  from mine_block_meets_difficulty[of fold_digest ?b "''02b7''" ?b'] run
  have "\<forall>i<nat (BlockHeader.difficulty (header ?b)). ''02b7'' ! i = CHR ''0''"
    by blast
  then have "''02b7'' ! 0 = CHR ''0''"
    by (simp add: d)
  moreover have "fold_digest ''02024-05-01 10:00:05.000000Genesis Block00'' = ''c649''"
    "fold_digest ''02024-05-01 10:00:05.000000Genesis Block01'' = ''6480''"
    "fold_digest ''02024-05-01 10:00:05.000000Genesis Block02'' = ''02b7''"
    by (simp_all add: fold_digest_def hex_digit_def)
  moreover have "nonce (header ex_genesis) = 2"
    by (simp add: ex_genesis_def)
  ultimately show ?thesis
    using run by blast
qed

text \<open>
  C4. The constructor builds a one-block chain whose block has index 0, data
  \<^verbatim>\<open>Genesis Block\<close>, previous hash \<^verbatim>\<open>0\<close> and the chain's difficulty. A call of
  \<^verbatim>\<open>add_block\<close> that returns appends one block whose index is the length of the chain
  at the call, whose previous hash is the stored hash of the tail, and whose difficulty
  is the chain's. Hence in every untampered chain block 0 is the genesis block, block
  \<open>i\<close> has index \<open>i\<close>, and for \<open>i > 0\<close> the previous hash of block \<open>i\<close> is the stored hash
  of block \<open>i - 1\<close>.
\<close>

theorem chain_structure:
  "(Blockchain_init H ts diff = Some c0 \<longrightarrow>
      difficulty c0 = diff \<and>
      (\<exists>g. chain c0 = [g] \<and> index (header g) = 0 \<and> data g = ''Genesis Block'' \<and>
           previous_hash (header g) = Some ''0'' \<and>
           BlockHeader.difficulty (header g) = diff)) \<and>
   (add_block H c ts' dat = Some (Inr c') \<longrightarrow>
      difficulty c' = difficulty c \<and>
      (\<exists>nb. chain c' = chain c @ [nb] \<and> index (header nb) = int (length (chain c)) \<and>
            previous_hash (header nb) = hash (header (last (chain c))) \<and>
            BlockHeader.difficulty (header nb) = difficulty c \<and> data nb = dat)) \<and>
   (untampered H u \<longrightarrow>
      chain u \<noteq> [] \<and> index (header (chain u ! 0)) = 0 \<and>
      data (chain u ! 0) = ''Genesis Block'' \<and>
      previous_hash (header (chain u ! 0)) = Some ''0'' \<and>
      (\<forall>i<length (chain u). index (header (chain u ! i)) = int i) \<and>
      (\<forall>i. 0 < i \<and> i < length (chain u) \<longrightarrow>
         previous_hash (header (chain u ! i)) = hash (header (chain u ! (i - 1)))))"
proof (intro conjI impI)
  assume "Blockchain_init H ts diff = Some c0"
  then obtain g where c0: "c0 = \<lparr>difficulty = diff, chain = [g]\<rparr>"
    and g: "Block_init H ts 0 ''Genesis Block'' (Some ''0'') diff = Some g"
    by (rule Blockchain_init_Some)
  from c0 show "difficulty c0 = diff"
    by simp
  from c0 Block_init_Some(1,3,4,5)[OF g]
  show "\<exists>g. chain c0 = [g] \<and> index (header g) = 0 \<and> data g = ''Genesis Block'' \<and>
           previous_hash (header g) = Some ''0'' \<and> BlockHeader.difficulty (header g) = diff"
    by simp
next
  assume "add_block H c ts' dat = Some (Inr c')"
  then obtain nb where c': "c' = c\<lparr>chain := chain c @ [nb]\<rparr>"
    and nb: "Block_init H ts' (int (length (chain c))) dat (hash (header (last (chain c))))
               (difficulty c) = Some nb"
    by (rule add_block_Some)
  from c' show "difficulty c' = difficulty c"
    by simp
  from c' Block_init_Some(1,3,4,5)[OF nb]
  show "\<exists>nb. chain c' = chain c @ [nb] \<and> index (header nb) = int (length (chain c)) \<and>
            previous_hash (header nb) = hash (header (last (chain c))) \<and>
            BlockHeader.difficulty (header nb) = difficulty c \<and> data nb = dat"
    by simp
next
  assume "untampered H u"
  then have wf: "well_formed H u"
    by (rule untampered_well_formed)
  then show "chain u \<noteq> []" and "data (chain u ! 0) = ''Genesis Block''"
    and "previous_hash (header (chain u ! 0)) = Some ''0''"
    and "\<forall>i<length (chain u). index (header (chain u ! i)) = int i"
    by (simp_all add: well_formed_def)
  from wf show "index (header (chain u ! 0)) = 0"
    by (auto simp: well_formed_def)
  from wf show "\<forall>i. 0 < i \<and> i < length (chain u) \<longrightarrow>
         previous_hash (header (chain u ! i)) = hash (header (chain u ! (i - 1)))"
    by (simp add: well_formed_def link_ok_def)
qed

theorem chain_structure_witness:
  "Blockchain_init fold_digest ''2024-05-01 10:00:05.000000'' 1 =
     Some \<lparr>difficulty = 1, chain = [ex_genesis]\<rparr> \<and>
   add_block fold_digest \<lparr>difficulty = 1, chain = [ex_genesis, ex_block1]\<rparr>
     ''2024-05-01 10:02:04.000000'' ''Bob pays Carol 3'' = Some (Inr ex_chain) \<and>
   untampered fold_digest ex_chain \<and>
   chain ex_chain = [ex_genesis, ex_block1] @ [ex_block2] \<and>
   index (header ex_block2) = 2 \<and>
   previous_hash (header ex_block2) = hash (header ex_block1) \<and>
   index (header (chain ex_chain ! 1)) = 1 \<and>
   previous_hash (header (chain ex_chain ! 1)) = hash (header (chain ex_chain ! 0))"
proof -
  note t = chain_structure[of fold_digest "''2024-05-01 10:00:05.000000''" 1
      "\<lparr>difficulty = 1, chain = [ex_genesis]\<rparr>"
      "\<lparr>difficulty = 1, chain = [ex_genesis, ex_block1]\<rparr>"
      "''2024-05-01 10:02:04.000000''" "''Bob pays Carol 3''" ex_chain ex_chain]
  from t ex_untampered
  have idx: "\<forall>i<length (chain ex_chain). index (header (chain ex_chain ! i)) = int i"
    and lnk: "\<forall>i. 0 < i \<and> i < length (chain ex_chain) \<longrightarrow>
      previous_hash (header (chain ex_chain ! i)) = hash (header (chain ex_chain ! (i - 1)))"
    by blast+
  have len: "length (chain ex_chain) = 3"
    by (simp add: ex_chain_def)
  from idx len have "index (header (chain ex_chain ! 1)) = 1"
    by force
  moreover from lnk len
  have "previous_hash (header (chain ex_chain ! 1)) = hash (header (chain ex_chain ! 0))"
    by force
  moreover have "chain ex_chain = [ex_genesis, ex_block1] @ [ex_block2]"
    "index (header ex_block2) = 2" "previous_hash (header ex_block2) = hash (header ex_block1)"
    by (simp_all add: ex_chain_def ex_block1_def ex_block2_def)
  ultimately show ?thesis
    using ex_constructed ex_added2 ex_untampered by blast
qed

text \<open>
  C2. Every chain built by the constructor, at any difficulty, and any finite number of
  \<^verbatim>\<open>add_block\<close> calls, with no tampering, passes \<^verbatim>\<open>is_chain_valid\<close>: the call returns
  true.
\<close>

theorem untampered_chain_valid:
  "untampered H c \<Longrightarrow> fst (is_chain_valid H c)"
  by (simp add: untampered_is_chain_valid)

theorem untampered_chain_valid_witness:
  "untampered fold_digest ex_chain \<and> fst (is_chain_valid fold_digest ex_chain) \<and>
   length (chain ex_chain) = 3 \<and> difficulty ex_chain = 1"
  using untampered_chain_valid[OF ex_untampered] ex_untampered
  by (simp add: ex_chain_def)

section \<open>What the validation loop checks\<close>

lemma is_chain_valid_lines:
  "snd (is_chain_valid H c) = map (printed_line H (chain c)) [1..<length (chain c)]"
  by (simp add: is_chain_valid_eq)

lemma is_chain_valid_line:
  assumes "1 \<le> i" and "i < length (chain c)"
  shows "snd (is_chain_valid H c) ! (i - 1) = printed_line H (chain c) i"
proof -
  from assms have "i - 1 < length [1..<length (chain c)]"
    by simp
  then have "snd (is_chain_valid H c) ! (i - 1) = printed_line H (chain c) ([1..<length (chain c)] ! (i - 1))"
    by (simp only: is_chain_valid_lines nth_map)
  also from assms have "[1..<length (chain c)] ! (i - 1) = i"
    by simp
  finally show ?thesis .
qed

text \<open>
  C1. \<^verbatim>\<open>is_chain_valid\<close> returns true if and only if every block of index 1 to
  \<^verbatim>\<open>len(chain) - 1\<close> has a stored hash equal to the hash recomputed from its fields and
  a previous hash equal to the stored hash of the block before it. The loop does not
  stop at a failure: it prints one line for each of these indices, in order, and the
  line of a block is \<^verbatim>\<open>Valid\<close> exactly when the block passes both checks.
\<close>

theorem is_chain_valid_iff_all_checks:
  "(fst (is_chain_valid H c) \<longleftrightarrow>
      (\<forall>i. 1 \<le> i \<and> i < length (chain c) \<longrightarrow>
         hash (header (chain c ! i)) = Some (calculate_hash H (chain c ! i)) \<and>
         previous_hash (header (chain c ! i)) = hash (header (chain c ! (i - 1))))) \<and>
   snd (is_chain_valid H c) = map (printed_line H (chain c)) [1..<length (chain c)] \<and>
   (\<forall>i. printed_line H (chain c) i = Valid i \<longleftrightarrow>
         hash (header (chain c ! i)) = Some (calculate_hash H (chain c ! i)) \<and>
         previous_hash (header (chain c ! i)) = hash (header (chain c ! (i - 1))))"
proof (intro conjI)
  show "fst (is_chain_valid H c) \<longleftrightarrow>
      (\<forall>i. 1 \<le> i \<and> i < length (chain c) \<longrightarrow>
         hash (header (chain c ! i)) = Some (calculate_hash H (chain c ! i)) \<and>
         previous_hash (header (chain c ! i)) = hash (header (chain c ! (i - 1))))"
    by (simp add: is_chain_valid_eq hash_ok_def link_ok_def Ball_def)
  show "snd (is_chain_valid H c) = map (printed_line H (chain c)) [1..<length (chain c)]"
    by (rule is_chain_valid_lines)
  show "\<forall>i. printed_line H (chain c) i = Valid i \<longleftrightarrow>
         hash (header (chain c ! i)) = Some (calculate_hash H (chain c ! i)) \<and>
         previous_hash (header (chain c ! i)) = hash (header (chain c ! (i - 1)))"
    by (simp add: printed_line_Valid_iff hash_ok_def link_ok_def)
qed

text \<open>
  The chain of the example after \<^verbatim>\<open>tamper_block(1)\<close>: block 1 fails, block 2 is still
  visited and passes, and the result is false.
\<close>

theorem is_chain_valid_iff_all_checks_witness:
  "is_chain_valid fold_digest
     (ex_chain\<lparr>chain := [ex_genesis, ex_block1\<lparr>data := ''Tampered Data''\<rparr>, ex_block2]\<rparr>) =
     (False, [Invalid_hash 1 (Some ''07cf'') ''2998'', Valid 2]) \<and>
   hash (header (ex_block1\<lparr>data := ''Tampered Data''\<rparr>)) \<noteq>
     Some (calculate_hash fold_digest (ex_block1\<lparr>data := ''Tampered Data''\<rparr>)) \<and>
   hash (header ex_block2) = Some (calculate_hash fold_digest ex_block2) \<and>
   previous_hash (header ex_block2) = hash (header (ex_block1\<lparr>data := ''Tampered Data''\<rparr>))"
proof -
  let ?b = "ex_block1\<lparr>data := ''Tampered Data''\<rparr>"
  let ?c = "ex_chain\<lparr>chain := [ex_genesis, ?b, ex_block2]\<rparr>"
  have b1: "hash (header ?b) \<noteq> Some (calculate_hash fold_digest ?b)"
    by (simp add: ex_hashes ex_fields)
  have b2: "hash (header ex_block2) = Some (calculate_hash fold_digest ex_block2)"
    "previous_hash (header ex_block2) = hash (header ?b)"
    by (simp_all add: ex_hashes ex_fields)
  have n: "chain ?c ! 1 = ?b" "chain ?c ! 2 = ex_block2" "chain ?c ! (2 - 1) = ?b"
    "(1::nat) \<le> 1" "1 < length (chain ?c)" "[1..<length (chain ?c)] = [1, 2]"
    by (simp_all add: upt_rec)
  from is_chain_valid_iff_all_checks[of fold_digest ?c]
  have f: "fst (is_chain_valid fold_digest ?c) \<longleftrightarrow>
      (\<forall>i. 1 \<le> i \<and> i < length (chain ?c) \<longrightarrow>
         hash (header (chain ?c ! i)) = Some (calculate_hash fold_digest (chain ?c ! i)) \<and>
         previous_hash (header (chain ?c ! i)) = hash (header (chain ?c ! (i - 1))))"
    and s: "snd (is_chain_valid fold_digest ?c) =
      map (printed_line fold_digest (chain ?c)) [1..<length (chain ?c)]"
    and v: "printed_line fold_digest (chain ?c) 2 = Valid 2 \<longleftrightarrow>
      hash (header (chain ?c ! 2)) = Some (calculate_hash fold_digest (chain ?c ! 2)) \<and>
      previous_hash (header (chain ?c ! 2)) = hash (header (chain ?c ! (2 - 1)))"
    by blast+
  from v b2 have l2: "printed_line fold_digest (chain ?c) 2 = Valid 2"
    by (simp only: n)
  have l1: "printed_line fold_digest (chain ?c) 1 = Invalid_hash 1 (Some ''07cf'') ''2998''"
    by (simp add: printed_line_cases hash_ok_def ex_hashes ex_fields)
  from s l1 l2 have lines: "snd (is_chain_valid fold_digest ?c) =
      [Invalid_hash 1 (Some ''07cf'') ''2998'', Valid 2]"
    by (simp only: n list.map)
  have "\<not> fst (is_chain_valid fold_digest ?c)"
  proof
    assume "fst (is_chain_valid fold_digest ?c)"
    with f n(4,5) have "hash (header (chain ?c ! 1)) =
        Some (calculate_hash fold_digest (chain ?c ! 1))"
      by blast
    with b1 show False
      by (simp only: n)
  qed
  with lines have "is_chain_valid fold_digest ?c =
      (False, [Invalid_hash 1 (Some ''07cf'') ''2998'', Valid 2])"
    by (simp add: prod_eq_iff)
  with b1 b2 show ?thesis
    by blast
qed

text \<open>
  C10. For a block whose stored hash differs from its recomputed hash, the line printed
  is the hash mismatch, whatever its previous hash is: the link is compared only in the
  \<^verbatim>\<open>elif\<close> branch. A block gets exactly one line, so at most one of the two checks is
  flagged for it, and a link mismatch is flagged only for a block that passed the hash
  check.
\<close>

theorem hash_check_precedes_link_check:
  assumes "1 \<le> i" and "i < length (chain c)"
  shows "(hash (header (chain c ! i)) \<noteq> Some (calculate_hash H (chain c ! i)) \<longrightarrow>
            snd (is_chain_valid H c) ! (i - 1) =
              Invalid_hash i (hash (header (chain c ! i))) (calculate_hash H (chain c ! i))) \<and>
         (\<forall>p q. snd (is_chain_valid H c) ! (i - 1) = Invalid_previous_hash i p q \<longrightarrow>
            hash (header (chain c ! i)) = Some (calculate_hash H (chain c ! i)) \<and>
            previous_hash (header (chain c ! i)) \<noteq> hash (header (chain c ! (i - 1)))) \<and>
         length (snd (is_chain_valid H c)) = length (chain c) - 1"
  unfolding is_chain_valid_line[OF assms]
  by (auto simp: printed_line_cases hash_ok_def link_ok_def is_chain_valid_lines
      split: if_splits)

text \<open>
  Block 1 of the example with its data and its previous hash both changed: both
  comparisons would fail, and the line is the hash mismatch.
\<close>

theorem hash_check_precedes_link_check_witness:
  "(1::nat) \<le> 1 \<and>
   1 < length (chain (ex_chain\<lparr>chain := [ex_genesis,
         ex_block1\<lparr>header := (header ex_block1)\<lparr>previous_hash := Some ''ffff''\<rparr>\<rparr>, ex_block2]\<rparr>)) \<and>
   previous_hash (header (ex_block1\<lparr>header := (header ex_block1)\<lparr>previous_hash := Some ''ffff''\<rparr>\<rparr>))
     \<noteq> hash (header ex_genesis) \<and>
   snd (is_chain_valid fold_digest (ex_chain\<lparr>chain := [ex_genesis,
         ex_block1\<lparr>header := (header ex_block1)\<lparr>previous_hash := Some ''ffff''\<rparr>\<rparr>, ex_block2]\<rparr>)) ! 0 =
     Invalid_hash 1 (Some ''07cf'') ''30a0''"
proof -
  let ?b = "ex_block1\<lparr>header := (header ex_block1)\<lparr>previous_hash := Some ''ffff''\<rparr>\<rparr>"
  let ?c = "ex_chain\<lparr>chain := [ex_genesis, ?b, ex_block2]\<rparr>"
  have i: "(1::nat) \<le> 1" "1 < length (chain ?c)"
    by simp_all
  have h: "hash (header (chain ?c ! 1)) = Some ''07cf''"
    "calculate_hash fold_digest (chain ?c ! 1) = ''30a0''"
    by (simp_all add: ex_hashes ex_fields)
  have p: "previous_hash (header ?b) \<noteq> hash (header ex_genesis)"
    by (simp add: ex_fields)
  from hash_check_precedes_link_check[OF i, of fold_digest] h
  have "snd (is_chain_valid fold_digest ?c) ! 0 = Invalid_hash 1 (Some ''07cf'') ''30a0''"
    by simp
  with i p show ?thesis
    by blast
qed

lemma is_chain_valid_cong:
  assumes len: "length (chain c') = length (chain c)"
    and same: "\<And>i. 1 \<le> i \<Longrightarrow> i < length (chain c) \<Longrightarrow>
      hash_ok H (chain c') i = hash_ok H (chain c) i \<and>
      link_ok (chain c') i = link_ok (chain c) i \<and>
      printed_line H (chain c') i = printed_line H (chain c) i"
  shows "is_chain_valid H c' = is_chain_valid H c"
proof -
  have "(\<forall>i\<in>{1..<length (chain c)}. hash_ok H (chain c') i \<and> link_ok (chain c') i) =
        (\<forall>i\<in>{1..<length (chain c)}. hash_ok H (chain c) i \<and> link_ok (chain c) i)"
    by (intro ball_cong refl) (simp add: same)
  moreover have "map (printed_line H (chain c')) [1..<length (chain c)] =
        map (printed_line H (chain c)) [1..<length (chain c)]"
    by (intro map_cong refl) (simp add: same)
  ultimately show ?thesis
    by (simp only: is_chain_valid_eq len)
qed

lemma printed_line_head:
  assumes "1 \<le> i" and "hash (header g') = hash (header g)"
  shows "printed_line H (g' # bs) i = printed_line H (g # bs) i"
    and "hash_ok H (g' # bs) i = hash_ok H (g # bs) i"
    and "link_ok (g' # bs) i = link_ok (g # bs) i"
proof -
  from assms(1) obtain k where i: "i = Suc k"
    by (cases i) simp_all
  show h: "hash_ok H (g' # bs) i = hash_ok H (g # bs) i"
    by (simp add: hash_ok_def i)
  show l: "link_ok (g' # bs) i = link_ok (g # bs) i"
    using assms(2) by (cases k) (simp_all add: link_ok_def i)
  show "printed_line H (g' # bs) i = printed_line H (g # bs) i"
    using assms(2) by (cases k) (simp_all add: printed_line_cases h l, simp_all add: i)
qed

text \<open>
  C9, as the claim states it, fails: the loop starts at index 1, so the stored hash of
  the genesis block is never compared with its recomputed hash. In the example chain
  with the data of block 0 overwritten and its hash left as it was, the stored hash of
  block 0 no longer matches, and \<^verbatim>\<open>is_chain_valid\<close> still returns true with every line
  \<^verbatim>\<open>Valid\<close>.
\<close>

theorem genesis_not_checked:
  "hash (header (ex_genesis\<lparr>data := ''Tampered Data''\<rparr>)) = Some ''02b7'' \<and>
   calculate_hash fold_digest (ex_genesis\<lparr>data := ''Tampered Data''\<rparr>) = ''6fd6'' \<and>
   is_chain_valid fold_digest
     (ex_chain\<lparr>chain := [ex_genesis\<lparr>data := ''Tampered Data''\<rparr>, ex_block1, ex_block2]\<rparr>) =
     (True, [Valid 1, Valid 2])"
  by (simp add: valid_simps ex_hashes ex_fields)

text \<open>
  C9, amended. \<^verbatim>\<open>is_chain_valid\<close> re-verifies the stored hash of every block of index 1
  to \<^verbatim>\<open>len(chain) - 1\<close>: such a block whose stored hash differs from the hash recomputed
  from its current fields makes the call return false and print the hash mismatch for
  that block. Of block 0 only the stored hash is read (as the link target of block 1):
  replacing block 0 by any block with the same stored hash leaves the result and the
  lines printed unchanged.
\<close>

theorem is_chain_valid_checks_from_one:
  "(1 \<le> i \<and> i < length (chain c) \<and>
    hash (header (chain c ! i)) \<noteq> Some (calculate_hash H (chain c ! i)) \<longrightarrow>
      \<not> fst (is_chain_valid H c) \<and>
      snd (is_chain_valid H c) ! (i - 1) =
        Invalid_hash i (hash (header (chain c ! i))) (calculate_hash H (chain c ! i))) \<and>
   (hash (header g') = hash (header g) \<longrightarrow>
      is_chain_valid H (c\<lparr>chain := g' # bs\<rparr>) = is_chain_valid H (c\<lparr>chain := g # bs\<rparr>))"
proof (intro conjI impI)
  assume a: "1 \<le> i \<and> i < length (chain c) \<and>
    hash (header (chain c ! i)) \<noteq> Some (calculate_hash H (chain c ! i))"
  then have "\<not> hash_ok H (chain c) i"
    by (simp add: hash_ok_def)
  with a show "\<not> fst (is_chain_valid H c)"
    by (auto simp: is_chain_valid_eq)
  from a have "1 \<le> i" and "i < length (chain c)"
    by simp_all
  then have "snd (is_chain_valid H c) ! (i - 1) = printed_line H (chain c) i"
    by (rule is_chain_valid_line)
  with a show "snd (is_chain_valid H c) ! (i - 1) =
        Invalid_hash i (hash (header (chain c ! i))) (calculate_hash H (chain c ! i))"
    by (simp add: printed_line_cases hash_ok_def)
next
  assume e: "hash (header g') = hash (header g)"
  show "is_chain_valid H (c\<lparr>chain := g' # bs\<rparr>) = is_chain_valid H (c\<lparr>chain := g # bs\<rparr>)"
  proof (rule is_chain_valid_cong)
    show "length (chain (c\<lparr>chain := g' # bs\<rparr>)) = length (chain (c\<lparr>chain := g # bs\<rparr>))"
      by simp
  next
    fix i :: nat
    assume "1 \<le> i"
    note h = printed_line_head[OF this e]
    from h(1)[of H bs] h(2)[of H bs] h(3)[of bs]
    show "hash_ok H (chain (c\<lparr>chain := g' # bs\<rparr>)) i =
            hash_ok H (chain (c\<lparr>chain := g # bs\<rparr>)) i \<and>
          link_ok (chain (c\<lparr>chain := g' # bs\<rparr>)) i =
            link_ok (chain (c\<lparr>chain := g # bs\<rparr>)) i \<and>
          printed_line H (chain (c\<lparr>chain := g' # bs\<rparr>)) i =
            printed_line H (chain (c\<lparr>chain := g # bs\<rparr>)) i"
      by simp
  qed
qed

theorem is_chain_valid_checks_from_one_witness:
  "hash (header (ex_block1\<lparr>data := ''Tampered Data''\<rparr>)) \<noteq>
     Some (calculate_hash fold_digest (ex_block1\<lparr>data := ''Tampered Data''\<rparr>)) \<and>
   \<not> fst (is_chain_valid fold_digest
       (ex_chain\<lparr>chain := [ex_genesis, ex_block1\<lparr>data := ''Tampered Data''\<rparr>, ex_block2]\<rparr>)) \<and>
   snd (is_chain_valid fold_digest
       (ex_chain\<lparr>chain := [ex_genesis, ex_block1\<lparr>data := ''Tampered Data''\<rparr>, ex_block2]\<rparr>)) ! 0 =
     Invalid_hash 1 (Some ''07cf'') ''2998'' \<and>
   hash (header (ex_genesis\<lparr>data := ''Tampered Data''\<rparr>)) = hash (header ex_genesis) \<and>
   is_chain_valid fold_digest
     (ex_chain\<lparr>chain := [ex_genesis\<lparr>data := ''Tampered Data''\<rparr>, ex_block1, ex_block2]\<rparr>) =
   is_chain_valid fold_digest
     (ex_chain\<lparr>chain := [ex_genesis, ex_block1, ex_block2]\<rparr>)"
proof -
  let ?b = "ex_block1\<lparr>data := ''Tampered Data''\<rparr>"
  let ?c = "ex_chain\<lparr>chain := [ex_genesis, ?b, ex_block2]\<rparr>"
  let ?g = "ex_genesis\<lparr>data := ''Tampered Data''\<rparr>"
  have h: "hash (header ?b) = Some ''07cf''" "calculate_hash fold_digest ?b = ''2998''"
    by (simp_all add: ex_hashes ex_fields)
  have n: "chain ?c ! 1 = ?b" "(1::nat) \<le> 1" "1 < length (chain ?c)" "(1::nat) - 1 = 0"
    by simp_all
  have b: "hash (header ?b) \<noteq> Some (calculate_hash fold_digest ?b)"
    by (simp add: ex_hashes ex_fields)
  have g: "hash (header ?g) = hash (header ex_genesis)"
    by simp
  from is_chain_valid_checks_from_one[where i = 1 and c = ?c and H = fold_digest] n b
  have "\<not> fst (is_chain_valid fold_digest ?c) \<and>
      snd (is_chain_valid fold_digest ?c) ! 0 =
        Invalid_hash 1 (hash (header ?b)) (calculate_hash fold_digest ?b)"
    by (simp only:) blast
  moreover
  from is_chain_valid_checks_from_one[where c = ex_chain and H = fold_digest and g' = ?g
      and g = ex_genesis and bs = "[ex_block1, ex_block2]"] g
  have "is_chain_valid fold_digest (ex_chain\<lparr>chain := [?g, ex_block1, ex_block2]\<rparr>) =
      is_chain_valid fold_digest (ex_chain\<lparr>chain := [ex_genesis, ex_block1, ex_block2]\<rparr>)"
    by blast
  ultimately show ?thesis
    using b g by (simp only: h) simp
qed

section \<open>Tampering\<close>

text \<open>
  C6, as the claim states it, fails: \<^verbatim>\<open>tamper_block\<close> raises nothing and returns
  nothing, so no error reaches the caller. On the example chain \<^verbatim>\<open>tamper_block(0)\<close>
  prints the refusal and hands back \<^verbatim>\<open>None\<close>, exactly what the successful
  \<^verbatim>\<open>tamper_block(1)\<close> hands back.
\<close>

theorem tamper_block_refusal_not_an_error:
  "tamper_block ex_chain 0 = (ex_chain, [Cannot_tamper]) \<and>
   tamper_block_returns ex_chain 0 = Inr PyNone \<and>
   snd (tamper_block ex_chain 1) = [Tampered 1] \<and>
   tamper_block_returns ex_chain 1 = Inr PyNone"
  by (simp add: tamper_block_def tamper_block_returns_def ex_chain_def)

text \<open>
  C6, amended. For an index \<^verbatim>\<open>index <= 0\<close> or \<^verbatim>\<open>index >= len(chain)\<close>,
  \<^verbatim>\<open>tamper_block\<close> prints the line \<^verbatim>\<open>Cannot tamper Genesis block or out-of-range
  index.\<close>, raises nothing and returns \<^verbatim>\<open>None\<close>, and leaves the chain as it was, every
  field of every block and the number of blocks included.
\<close>

theorem tamper_block_out_of_range:
  "idx \<le> 0 \<or> int (length (chain c)) \<le> idx \<Longrightarrow>
     tamper_block c idx = (c, [Cannot_tamper]) \<and> tamper_block_returns c idx = Inr PyNone"
  by (auto simp: tamper_block_def tamper_block_returns_def)

theorem tamper_block_out_of_range_witness:
  "tamper_block ex_chain 0 = (ex_chain, [Cannot_tamper]) \<and>
   tamper_block ex_chain 3 = (ex_chain, [Cannot_tamper]) \<and>
   tamper_block ex_chain (- 1) = (ex_chain, [Cannot_tamper]) \<and>
   tamper_block_returns ex_chain 3 = Inr PyNone \<and>
   int (length (chain ex_chain)) = 3"
proof -
  have len: "int (length (chain ex_chain)) = 3"
    by (simp add: ex_chain_def)
  have "tamper_block ex_chain 0 = (ex_chain, [Cannot_tamper])"
    using tamper_block_out_of_range[of 0 ex_chain] by simp
  moreover have "tamper_block ex_chain 3 = (ex_chain, [Cannot_tamper]) \<and>
      tamper_block_returns ex_chain 3 = Inr PyNone"
    by (rule tamper_block_out_of_range) (simp add: len)
  moreover have "tamper_block ex_chain (- 1) = (ex_chain, [Cannot_tamper])"
    using tamper_block_out_of_range[of "- 1" ex_chain] by simp
  ultimately show ?thesis
    using len by blast
qed

text \<open>
  C7. For \<^verbatim>\<open>0 < index < len(chain)\<close>, \<^verbatim>\<open>tamper_block\<close> overwrites the data of that
  block with \<^verbatim>\<open>Tampered Data\<close> and nothing else: the header of the block (hash, nonce,
  index, timestamp, previous hash, difficulty) is unchanged, every other block is
  unchanged, and so are the length and the difficulty of the chain.
\<close>

theorem tamper_block_frame:
  assumes "0 < idx" and "idx < int (length (chain c))"
  shows "tamper_block c idx =
           (c\<lparr>chain := (chain c)[nat idx := (chain c ! nat idx)\<lparr>data := ''Tampered Data''\<rparr>]\<rparr>,
            [Tampered idx]) \<and>
         data (chain (fst (tamper_block c idx)) ! nat idx) = ''Tampered Data'' \<and>
         header (chain (fst (tamper_block c idx)) ! nat idx) = header (chain c ! nat idx) \<and>
         (\<forall>j. j \<noteq> nat idx \<longrightarrow> chain (fst (tamper_block c idx)) ! j = chain c ! j) \<and>
         length (chain (fst (tamper_block c idx))) = length (chain c) \<and>
         difficulty (fst (tamper_block c idx)) = difficulty c"
proof -
  from assms have k: "nat idx < length (chain c)"
    by simp
  from assms have t: "tamper_block c idx =
      (c\<lparr>chain := (chain c)[nat idx := (chain c ! nat idx)\<lparr>data := ''Tampered Data''\<rparr>]\<rparr>,
       [Tampered idx])"
    by (simp add: tamper_block_def)
  show ?thesis
    unfolding t using k by simp
qed

theorem tamper_block_frame_witness:
  "(0::int) < 1 \<and> 1 < int (length (chain ex_chain)) \<and>
   tamper_block ex_chain 1 =
     (ex_chain\<lparr>chain := [ex_genesis, ex_block1\<lparr>data := ''Tampered Data''\<rparr>, ex_block2]\<rparr>,
      [Tampered 1]) \<and>
   header (chain (fst (tamper_block ex_chain 1)) ! 1) = header ex_block1 \<and>
   chain (fst (tamper_block ex_chain 1)) ! 2 = ex_block2"
proof -
  have i: "(0::int) < 1" "1 < int (length (chain ex_chain))"
    by (simp_all add: ex_chain_def)
  have n: "chain ex_chain ! Suc 0 = ex_block1" "chain ex_chain ! 2 = ex_block2"
    "(chain ex_chain)[Suc 0 := b] = [ex_genesis, b, ex_block2]" for b
    by (simp_all add: ex_chain_def)
  note t = tamper_block_frame[OF i]
  from t have "tamper_block ex_chain 1 =
     (ex_chain\<lparr>chain := [ex_genesis, ex_block1\<lparr>data := ''Tampered Data''\<rparr>, ex_block2]\<rparr>,
      [Tampered 1])"
    by (simp add: n)
  moreover from t have "header (chain (fst (tamper_block ex_chain 1)) ! 1) = header ex_block1"
    by (simp add: n)
  moreover from t have "chain (fst (tamper_block ex_chain 1)) ! 2 = chain ex_chain ! 2"
    by force
  ultimately show ?thesis
    using i by (simp add: n)
qed

lemma tamper_block_marker_noop:
  assumes "0 < idx" and "idx < int (length (chain c))"
    and "data (chain c ! nat idx) = ''Tampered Data''"
  shows "tamper_block c idx = (c, [Tampered idx])"
proof -
  have "(chain c ! nat idx)\<lparr>data := ''Tampered Data''\<rparr> = chain c ! nat idx"
    using assms(3) by (cases "chain c ! nat idx") simp
  then show ?thesis
    using assms(1,2) by (simp add: tamper_block_def)
qed

text \<open>
  C5. The docstring of \<^verbatim>\<open>tamper_block\<close> says what the claim says: the call "should
  break chain validity". The code misses one case: it writes a fixed text, so a block
  whose data is \<^verbatim>\<open>Tampered Data\<close> already is left as it was, whatever the digest. The
  chain below is built by the constructor and \<^verbatim>\<open>add_block("Tampered Data")\<close>;
  \<^verbatim>\<open>tamper_block(1)\<close> prints that block 1 has been tampered, the chain is the same
  chain, and a subsequent \<^verbatim>\<open>is_chain_valid\<close> returns true with block 1 reported valid.
\<close>

theorem tamper_marker_undetected:
  "untampered fold_digest ex_marker_chain \<and>
   (0::int) < 1 \<and> 1 < int (length (chain ex_marker_chain)) \<and>
   tamper_block ex_marker_chain 1 = (ex_marker_chain, [Tampered 1]) \<and>
   is_chain_valid fold_digest (fst (tamper_block ex_marker_chain 1)) = (True, [Valid 1])"
proof -
  have i: "(0::int) < 1" "1 < int (length (chain ex_marker_chain))"
    and d: "data (chain ex_marker_chain ! nat 1) = ''Tampered Data''"
    by (simp_all add: ex_marker_chain_def ex_fields)
  have t: "tamper_block ex_marker_chain 1 = (ex_marker_chain, [Tampered 1])"
    using i d by (rule tamper_block_marker_noop)
  have "is_chain_valid fold_digest ex_marker_chain = (True, [Valid 1])"
    using untampered_is_chain_valid[OF ex_marker_untampered]
    by (simp add: ex_marker_chain_def)
  with t i ex_marker_untampered show ?thesis
    by simp
qed

section \<open>Searching\<close>








end
